theory Spec2Isabelle
  imports Complex_Main
begin

section \<open>The audio player of Yesterday in Review\<close>

text \<open>
  The playback engine of the repository is the React component \<open>AudioPlayer\<close>
  (components/AudioPlayer.tsx) together with the audio state that \<open>App\<close> (App.tsx)
  owns and hands down as props. The component turns the one-shot
  \<open>AudioBufferSourceNode\<close> of the Web Audio API into a player with pause, resume and
  scrub-seek.

  Numbers of the source are JavaScript doubles; they are modelled as \<^typ>\<open>real\<close>, so
  rounding is not part of the model. An \<open>AudioBuffer\<close> is represented by its
  \<open>duration\<close>, the only attribute the component reads. The one exception the
  component can run into, the \<open>RangeError\<close> of \<open>source.start\<close>, is a result of the
  functions that can raise it.
\<close>

subsection \<open>The Web Audio environment\<close>

text \<open>
  A source node is created by \<open>context.createBufferSource()\<close>, started once with
  \<open>source.start(0, offset)\<close> and can afterwards only be stopped. The browser delivers an
  \<open>ended\<close> event to the node's \<open>onended\<close> handler once, after the node ran out of
  buffer or after \<open>stop()\<close> was called on it (the comment in the handler, "not manually
  stopped/seeked", is about the second case).
\<close>

datatype node_status =
  Running     \<comment> \<open>started; \<open>stop()\<close> not called, \<open>ended\<close> event not delivered\<close>
| Stopped     \<comment> \<open>\<open>stop()\<close> was called, the \<open>ended\<close> event is still to be delivered\<close>
| Finished    \<comment> \<open>the \<open>ended\<close> event was delivered\<close>

record source_node =
  startOffset :: real   \<comment> \<open>second argument of \<open>source.start(0, offset)\<close>\<close>
  endAt :: real         \<comment> \<open>clock reading at which the node runs out of buffer\<close>
  capDuration :: real   \<comment> \<open>\<open>buffer.duration\<close> in the closure of its \<open>onended\<close> handler\<close>
  status :: node_status

subsection \<open>State of App and AudioPlayer\<close>

record player =
  \<comment> \<open>state of App, passed to AudioPlayer as props\<close>
  isPlaying :: bool            \<comment> \<open>\<open>isAudioPlaying\<close>\<close>
  buffer :: "real option"      \<comment> \<open>\<open>audioBuffer\<close>: \<open>None\<close> is \<open>null\<close>, \<open>Some d\<close> a buffer of duration \<open>d\<close>\<close>
  audioContext :: bool         \<comment> \<open>\<open>audioContext\<close> is not \<open>null\<close>\<close>
  \<comment> \<open>\<open>useState\<close> of AudioPlayer\<close>
  currentTime :: real
  duration :: real
  isDragging :: bool
  \<comment> \<open>\<open>useRef\<close> of AudioPlayer\<close>
  sourceRef :: "nat option"
  startTimeRef :: real
  pausedAtRef :: real
  animationRef :: "(bool \<times> real) option"
     \<comment> \<open>the pending \<open>requestAnimationFrame\<close> callback \<open>updateProgress\<close>, with the
         \<open>isDragging\<close> and \<open>buffer.duration\<close> of its closure; \<open>None\<close> when cancelled\<close>
  hasCleanup :: bool
     \<comment> \<open>the last run of the playback effect returned a cleanup function\<close>
  \<comment> \<open>the environment\<close>
  sources :: "nat \<Rightarrow> source_node option"   \<comment> \<open>every node created so far\<close>
  nextSource :: nat                              \<comment> \<open>handle of the next node\<close>
  clock :: real                                  \<comment> \<open>last reading of \<open>context.currentTime\<close>\<close>

definition init :: player where
  "init = \<lparr> isPlaying = False, buffer = None, audioContext = False,
            currentTime = 0, duration = 0, isDragging = False,
            sourceRef = None, startTimeRef = 0, pausedAtRef = 0,
            animationRef = None, hasCleanup = False,
            sources = (\<lambda>h. None), nextSource = 0, clock = 0 \<rparr>"

subsection \<open>Source nodes\<close>

text \<open>
  \<open>try { sourceRef.current.stop(); } catch(e) { }\<close>: a running node stops; on a node
  that has stopped or ended already the call changes nothing.
\<close>

definition stopSource :: "nat \<Rightarrow> player \<Rightarrow> player" where
  "stopSource h s =
     (case sources s h of
        None \<Rightarrow> s
      | Some n \<Rightarrow>
          if status n = Running
          then s\<lparr>sources := (sources s)(h \<mapsto> n\<lparr>status := Stopped\<rparr>)\<rparr>
          else s)"

text \<open>
  The block shared by the playback effect and \<open>handleSeekEnd\<close>:
  \<^verbatim>\<open>
  const source = context.createBufferSource();
  source.buffer = buffer;
  source.connect(context.destination);
  sourceRef.current = source;
  source.start(0, pausedAtRef.current);
  startTimeRef.current = context.currentTime - pausedAtRef.current;
  source.onended = () => { ... };
  \<close>
  \<open>source.start(0, offset)\<close> throws a \<open>RangeError\<close> when the offset is negative;
  nothing in the component catches it, so the handler or effect that runs the block
  is aborted there. A node started at \<open>offset\<close> on a buffer of duration \<open>d\<close> runs
  out after \<open>d - offset\<close> seconds, at once when the offset is at or beyond the end.
\<close>

datatype error = RangeError

definition startSegment :: "real \<Rightarrow> real \<Rightarrow> player \<Rightarrow> error + player" where
  "startSegment now d s =
     (let offset = pausedAtRef s; h = nextSource s
      in if offset < 0 then Inl RangeError
         else Inr (s\<lparr>sources := (sources s)(h \<mapsto>
               \<lparr>startOffset = offset, endAt = now + max 0 (d - offset),
                capDuration = d, status = Running\<rparr>),
           nextSource := Suc h,
           sourceRef := Some h,
           startTimeRef := now - offset\<rparr>))"

text \<open>
  The \<open>onended\<close> handler, identical in both places. \<open>onTogglePlay\<close> is
  \<open>() => setIsAudioPlaying(!isAudioPlaying)\<close> of the render in which the node was
  created, where \<open>isAudioPlaying\<close> was true, so the call sets the flag to false.
  \<^verbatim>\<open>
  if (context.currentTime - startTimeRef.current >= buffer.duration - 0.1) {
      onTogglePlay();
      pausedAtRef.current = 0;
      setCurrentTime(0);
  }
  \<close>
\<close>

definition onended :: "real \<Rightarrow> real \<Rightarrow> player \<Rightarrow> player" where
  "onended now d s =
     (if now - startTimeRef s \<ge> d - 1 / 10
      then s\<lparr>isPlaying := False, pausedAtRef := 0, currentTime := 0\<rparr>
      else s)"

subsection \<open>The effects of AudioPlayer\<close>

text \<open>The effect on \<open>[buffer]\<close> ("Initialize duration").\<close>

definition durationEffect :: "player \<Rightarrow> player" where
  "durationEffect s =
     (case buffer s of
        Some d \<Rightarrow> s\<lparr>duration := d\<rparr>
      | None \<Rightarrow> s\<lparr>duration := 0, currentTime := 0, pausedAtRef := 0\<rparr>)"

text \<open>
  The cleanup function returned by the playback effect. It stops the node in
  \<open>sourceRef\<close> without clearing the ref, and cancels the animation frame. A run of the
  effect that left through \<open>if (!buffer || !context) return;\<close> returned no cleanup.
\<close>

definition cleanup :: "player \<Rightarrow> player" where
  "cleanup s =
     (if hasCleanup s
      then (case sourceRef s of None \<Rightarrow> s | Some h \<Rightarrow> stopSource h s)\<lparr>animationRef := None\<rparr>
      else s)"

text \<open>
  The body of the playback effect ("Handle Playback Logic"), on
  \<open>[isPlaying, buffer, context, onTogglePlay, isDragging]\<close>.
\<close>

definition playbackEffect :: "real \<Rightarrow> player \<Rightarrow> error + player" where
  "playbackEffect now s =
     (case buffer s of
        None \<Rightarrow> Inr (s\<lparr>hasCleanup := False\<rparr>)
      | Some d \<Rightarrow>
          if \<not> audioContext s then Inr (s\<lparr>hasCleanup := False\<rparr>)
          else if isPlaying s
          then (case startSegment now d s of
                  Inl e \<Rightarrow> Inl e
                | Inr s1 \<Rightarrow>
                    Inr (s1\<lparr>animationRef := Some (isDragging s, d), hasCleanup := True\<rparr>))
          else
            let s1 = (case sourceRef s of
                        None \<Rightarrow> s
                      | Some h \<Rightarrow> (stopSource h s)\<lparr>sourceRef := None\<rparr>);
                s2 = (if \<not> isDragging s1
                      then s1\<lparr>pausedAtRef := now - startTimeRef s1\<rparr>
                      else s1)
            in Inr (s2\<lparr>animationRef := None, hasCleanup := True\<rparr>))"

text \<open>
  The animation-frame callback \<open>updateProgress\<close>. It reschedules itself
  (\<open>isPlaying\<close> of its closure is true), so the pending callback stays.
\<close>

definition updateProgress :: "real \<Rightarrow> player \<Rightarrow> player" where
  "updateProgress now s =
     (case animationRef s of
        None \<Rightarrow> s
      | Some (dragging, d) \<Rightarrow>
          if \<not> dragging
          then s\<lparr>currentTime := min (now - startTimeRef s) d\<rparr>
          else s)"

subsection \<open>The slider handlers\<close>

definition handleSeekStart :: "player \<Rightarrow> player" where
  "handleSeekStart s = s\<lparr>isDragging := True\<rparr>"

definition handleSeekChange :: "real \<Rightarrow> player \<Rightarrow> player" where
  "handleSeekChange newTime s = s\<lparr>currentTime := newTime\<rparr>"

text \<open>
  \<open>seekRestart\<close> is step 2 of \<open>handleSeekEnd\<close>: stop the node in \<open>sourceRef\<close>, then
  create and start the next one.
\<close>

definition seekRestart :: "real \<Rightarrow> real \<Rightarrow> player \<Rightarrow> error + player" where
  "seekRestart now d s =
     (case sourceRef s of
        None \<Rightarrow> Inr s
      | Some h \<Rightarrow> if isPlaying s then startSegment now d (stopSource h s) else Inr s)"

definition handleSeekEnd :: "real \<Rightarrow> player \<Rightarrow> error + player" where
  "handleSeekEnd now s =
     (case buffer s of
        None \<Rightarrow> Inr s
      | Some d \<Rightarrow>
          if \<not> audioContext s then Inr s
          else (case seekRestart now d (s\<lparr>pausedAtRef := currentTime s\<rparr>) of
                  Inl e \<Rightarrow> Inl e
                | Inr s1 \<Rightarrow> Inr (s1\<lparr>isDragging := False\<rparr>)))"

subsection \<open>Rendering\<close>

text \<open>
  After the state changes of a handler React renders again and then runs the effects
  whose dependencies changed: first the cleanups, then the bodies in the order of
  their declaration. \<open>old\<close> is the state at the previous render, \<open>new\<close> the state the
  handler produced. \<open>parent\<close> says that App rendered: then \<open>onTogglePlay\<close>, an arrow
  function written inline in App's JSX, is a new function and the playback effect
  runs whatever the other dependencies are. A handler and the effects it triggers
  read the same \<open>context.currentTime\<close>.
\<close>

definition commit :: "bool \<Rightarrow> real \<Rightarrow> player \<Rightarrow> player \<Rightarrow> error + player" where
  "commit parent now old new =
     (let bufferChanged = (buffer new \<noteq> buffer old);
          playbackChanged = (parent \<or> isPlaying new \<noteq> isPlaying old \<or> bufferChanged
                             \<or> audioContext new \<noteq> audioContext old
                             \<or> isDragging new \<noteq> isDragging old);
          s1 = (if playbackChanged then cleanup new else new);
          s2 = (if bufferChanged then durationEffect s1 else s1)
      in if playbackChanged then playbackEffect now s2 else Inr s2)"

subsection \<open>Events\<close>

datatype event =
  InitAudio          \<comment> \<open>\<open>initAudio\<close> of App creates the AudioContext\<close>
| Loaded real        \<comment> \<open>\<open>handlePlayAudio\<close> got the decoded buffer: \<open>setAudioBuffer(buffer); setIsAudioPlaying(true)\<close>\<close>
| Unload             \<comment> \<open>\<open>onClose\<close>, or \<open>handlePlayAudio\<close> for another article: \<open>setIsAudioPlaying(false); setAudioBuffer(null)\<close>\<close>
| Toggle             \<comment> \<open>\<open>onTogglePlay\<close>, or \<open>handlePlayAudio\<close> for the article that is loaded\<close>
| SeekStart          \<comment> \<open>\<open>onMouseDown\<close>/\<open>onTouchStart\<close> of the slider\<close>
| SeekChange real    \<comment> \<open>\<open>onChange\<close> of the slider with the parsed value\<close>
| SeekEnd            \<comment> \<open>\<open>onMouseUp\<close>/\<open>onTouchEnd\<close> of the slider\<close>
| Tick               \<comment> \<open>the animation frame fires\<close>
| Ended nat          \<comment> \<open>the \<open>ended\<close> event of a node is delivered\<close>
| ParentRender       \<comment> \<open>App renders for a reason of its own\<close>

text \<open>
  \<open>react now e s\<close> runs the handler of \<open>e\<close> and the render that follows it; the
  state changes of one handler are rendered together, and the effects of that render
  have run before the next event. The result is \<open>Inl\<close> when the handler or an effect
  was aborted by an exception, and the state after the event otherwise. \<open>setIsAudioPlaying(false)\<close> in \<open>onended\<close> makes App
  render only when the flag was true.
\<close>

fun react :: "real \<Rightarrow> event \<Rightarrow> player \<Rightarrow> error + player" where
  "react now InitAudio s = commit True now s (s\<lparr>audioContext := True\<rparr>)"
| "react now (Loaded d) s = commit True now s (s\<lparr>isPlaying := True, buffer := Some d\<rparr>)"
| "react now Unload s = commit True now s (s\<lparr>isPlaying := False, buffer := None\<rparr>)"
| "react now Toggle s = commit True now s (s\<lparr>isPlaying := \<not> isPlaying s\<rparr>)"
| "react now SeekStart s = commit False now s (handleSeekStart s)"
| "react now (SeekChange v) s = commit False now s (handleSeekChange v s)"
| "react now SeekEnd s =
     (case handleSeekEnd now s of
        Inl e \<Rightarrow> Inl e
      | Inr s1 \<Rightarrow> commit False now s s1)"
| "react now Tick s = Inr (updateProgress now s)"
| "react now (Ended h) s =
     (case sources s h of
        None \<Rightarrow> Inr s
      | Some n \<Rightarrow>
          let s1 = s\<lparr>sources := (sources s)(h \<mapsto> n\<lparr>status := Finished\<rparr>)\<rparr>;
              s2 = onended now (capDuration n) s1
          in commit (isPlaying s2 \<noteq> isPlaying s1) now s1 s2)"
| "react now ParentRender s = commit True now s s"

definition step :: "real \<Rightarrow> event \<Rightarrow> player \<Rightarrow> error + player" where
  "step now e s = react now e (s\<lparr>clock := now\<rparr>)"

text \<open>
  What the environment can do. The clock does not run backwards. App starts a load
  only with an AudioContext, and a decoded buffer has a positive duration. The
  play/pause button and the slider are rendered with a buffer only; the slider is an
  \<open><input type="range" min={0} max={duration || 100}>\<close>, so its value lies between
  these bounds. The frame fires only while one is requested. A node signals \<open>ended\<close>
  after \<open>stop()\<close> or when its buffer has run out.
\<close>

fun allowed :: "event \<Rightarrow> real \<Rightarrow> player \<Rightarrow> bool" where
  "allowed InitAudio now s = True"
| "allowed (Loaded d) now s = (audioContext s \<and> 0 < d)"
| "allowed Unload now s = True"
| "allowed Toggle now s = (buffer s \<noteq> None)"
| "allowed SeekStart now s = (buffer s \<noteq> None)"
| "allowed (SeekChange v) now s =
     (buffer s \<noteq> None \<and> 0 \<le> v \<and> v \<le> (if duration s = 0 then 100 else duration s))"
| "allowed SeekEnd now s = (buffer s \<noteq> None)"
| "allowed Tick now s = (animationRef s \<noteq> None)"
| "allowed (Ended h) now s =
     (case sources s h of
        None \<Rightarrow> False
      | Some n \<Rightarrow> status n = Stopped \<or> (status n = Running \<and> endAt n \<le> now))"
| "allowed ParentRender now s = True"

definition enabled :: "real \<Rightarrow> event \<Rightarrow> player \<Rightarrow> bool" where
  "enabled now e s \<longleftrightarrow> clock s \<le> now \<and> allowed e now s"

inductive reachable :: "player \<Rightarrow> bool" where
  reachable_init: "reachable init"
| reachable_step:
    "reachable s \<Longrightarrow> enabled now e s \<Longrightarrow> step now e s = Inr s' \<Longrightarrow> reachable s'"

text \<open>
  A run: the events of a list, each with the clock reading at which it happens. It
  ends at the first exception. \<open>seen f r\<close> reads \<open>f\<close> off the state a run or step
  ended in, and \<open>yields r P\<close> says that it ended in a state with \<open>P\<close>.
\<close>

fun run :: "(real \<times> event) list \<Rightarrow> player \<Rightarrow> error + player" where
  "run [] s = Inr s"
| "run ((now, e) # es) s = (case step now e s of Inl x \<Rightarrow> Inl x | Inr s' \<Rightarrow> run es s')"

definition seen :: "(player \<Rightarrow> 'a) \<Rightarrow> error + player \<Rightarrow> 'a option" where
  "seen f r = (case r of Inl e \<Rightarrow> None | Inr s \<Rightarrow> Some (f s))"

definition yields :: "error + player \<Rightarrow> (player \<Rightarrow> bool) \<Rightarrow> bool" where
  "yields r P = (case r of Inl e \<Rightarrow> False | Inr s \<Rightarrow> P s)"

text \<open>
  A node is alive from its start until \<open>stop()\<close> is called on it or its \<open>ended\<close>
  event is delivered.
\<close>

definition alive :: "player \<Rightarrow> nat \<Rightarrow> bool" where
  "alive s h = (case sources s h of None \<Rightarrow> False | Some n \<Rightarrow> status n = Running)"

text \<open>
  The active emitter: the node in \<open>sourceRef\<close>, when it is alive; and the offset it was
  started at.
\<close>

definition emitterActive :: "player \<Rightarrow> bool" where
  "emitterActive s = (case sourceRef s of None \<Rightarrow> False | Some h \<Rightarrow> alive s h)"

definition emitterOffset :: "player \<Rightarrow> real option" where
  "emitterOffset s =
     (case sourceRef s of None \<Rightarrow> None | Some h \<Rightarrow> map_option startOffset (sources s h))"

text \<open>What the environment knows of node \<open>h\<close>: its state and the offset it was started at.\<close>

definition nodeStatus :: "nat \<Rightarrow> player \<Rightarrow> node_status option" where
  "nodeStatus h s = map_option status (sources s h)"

definition nodeOffset :: "nat \<Rightarrow> player \<Rightarrow> real option" where
  "nodeOffset h s = map_option startOffset (sources s h)"

text \<open>
  A run is admissible when the environment can produce each of its events in turn and
  none of them ends in an exception.
\<close>

fun admissible :: "(real \<times> event) list \<Rightarrow> player \<Rightarrow> bool" where
  "admissible [] s = True"
| "admissible ((now, e) # es) s =
     (enabled now e s \<and> (case step now e s of Inl x \<Rightarrow> False | Inr s' \<Rightarrow> admissible es s'))"

subsection \<open>The invariant of the reachable states\<close>

text \<open>
  \<open>timed s h\<close>: node \<open>h\<close> plays the buffer that is loaded, and it runs out no earlier
  than \<open>startTimeRef\<close> plus the duration. \<open>sane s\<close>: what App guarantees, and the signs of
  the times. \<open>fresh s\<close>: no node has a handle from \<open>nextSource\<close> on.
  \<open>player_inv\<close> holds after every event; \<open>pre\<close> holds between a handler and
  the effects it triggers, \<open>mid\<close> between the cleanup and the body of the playback
  effect.
\<close>

definition quiet :: "player \<Rightarrow> bool" where
  "quiet s \<longleftrightarrow> (\<forall>h. \<not> alive s h)"

definition timed :: "player \<Rightarrow> nat \<Rightarrow> bool" where
  "timed s h \<longleftrightarrow> (\<forall>n. sources s h = Some n \<longrightarrow>
      buffer s = Some (capDuration n) \<and> startTimeRef s + capDuration n \<le> endAt n)"


definition sane :: "player \<Rightarrow> bool" where
  "sane s \<longleftrightarrow> (buffer s \<noteq> None \<longrightarrow> audioContext s)
   \<and> (\<forall>d. buffer s = Some d \<longrightarrow> 0 < d)
   \<and> 0 \<le> pausedAtRef s \<and> 0 \<le> currentTime s \<and> startTimeRef s \<le> clock s"

definition player_inv :: "player \<Rightarrow> bool" where
  "player_inv s \<longleftrightarrow>
     (\<forall>h. alive s h \<longrightarrow>
        sourceRef s = Some h \<and> isPlaying s \<and> buffer s \<noteq> None \<and> timed s h)
   \<and> (isPlaying s \<longrightarrow> buffer s \<noteq> None \<longrightarrow> emitterActive s \<and> animationRef s \<noteq> None)
   \<and> (hasCleanup s \<longleftrightarrow> buffer s \<noteq> None)
   \<and> (\<forall>g d. animationRef s = Some (g, d) \<longrightarrow>
        g = isDragging s \<and> buffer s = Some d \<and> isPlaying s)
   \<and> sane s"

definition pre :: "player \<Rightarrow> bool" where
  "pre s \<longleftrightarrow>
     (\<forall>h. alive s h \<longrightarrow> sourceRef s = Some h \<and> hasCleanup s)
   \<and> (hasCleanup s \<or> animationRef s = None)
   \<and> sane s"

definition mid :: "player \<Rightarrow> bool" where
  "mid s \<longleftrightarrow> quiet s \<and> animationRef s = None \<and> sane s"

section \<open>Properties\<close>

subsection \<open>Results of runs and steps\<close>

lemma yields_simps [simp]:
  "yields (Inr s) P = P s"
  "yields (Inl e) P = False"
  by (simp_all add: yields_def)

lemma seen_simps [simp]:
  "seen f (Inr s) = Some (f s)"
  "seen f (Inl e) = None"
  by (simp_all add: seen_def)

lemma yields_iff: "yields r P \<longleftrightarrow> (\<exists>s. r = Inr s \<and> P s)"
  by (cases r) simp_all

lemma yields_mono: "yields r P \<Longrightarrow> (\<And>s. P s \<Longrightarrow> Q s) \<Longrightarrow> yields r Q"
  by (cases r) simp_all

subsection \<open>Source nodes and record fields\<close>

lemma stopSource_fields [simp]:
  "isPlaying (stopSource h s) = isPlaying s"
  "buffer (stopSource h s) = buffer s"
  "audioContext (stopSource h s) = audioContext s"
  "currentTime (stopSource h s) = currentTime s"
  "duration (stopSource h s) = duration s"
  "isDragging (stopSource h s) = isDragging s"
  "sourceRef (stopSource h s) = sourceRef s"
  "startTimeRef (stopSource h s) = startTimeRef s"
  "pausedAtRef (stopSource h s) = pausedAtRef s"
  "animationRef (stopSource h s) = animationRef s"
  "hasCleanup (stopSource h s) = hasCleanup s"
  "nextSource (stopSource h s) = nextSource s"
  "clock (stopSource h s) = clock s"
  by (simp_all add: stopSource_def split: option.splits)

lemma alive_update [simp]:
  "alive (isPlaying_update f0 s) h = alive s h"
  "alive (buffer_update f1 s) h = alive s h"
  "alive (audioContext_update f2 s) h = alive s h"
  "alive (currentTime_update f3 s) h = alive s h"
  "alive (duration_update f4 s) h = alive s h"
  "alive (isDragging_update f5 s) h = alive s h"
  "alive (sourceRef_update f6 s) h = alive s h"
  "alive (startTimeRef_update f7 s) h = alive s h"
  "alive (pausedAtRef_update f8 s) h = alive s h"
  "alive (animationRef_update f9 s) h = alive s h"
  "alive (hasCleanup_update f10 s) h = alive s h"
  "alive (nextSource_update f11 s) h = alive s h"
  "alive (clock_update f12 s) h = alive s h"
  by (simp_all add: alive_def)

lemma alive_stopSource [simp]: "alive (stopSource h s) k \<longleftrightarrow> alive s k \<and> k \<noteq> h"
  by (auto simp: alive_def stopSource_def split: option.splits)

lemma sane_stopSource [simp]: "sane (stopSource h s) = sane s"
  by (simp add: sane_def)

text \<open>The two outcomes of the start block.\<close>

lemma startSegment_Inl: "pausedAtRef s < 0 \<Longrightarrow> startSegment now d s = Inl RangeError"
  by (simp add: startSegment_def Let_def)

lemma startSegment_ex: "0 \<le> pausedAtRef s \<Longrightarrow> \<exists>s'. startSegment now d s = Inr s'"
  by (simp add: startSegment_def Let_def)

lemma startSegment_fields:
  assumes "startSegment now d s = Inr s'"
  shows "isPlaying s' = isPlaying s"
    "buffer s' = buffer s"
    "audioContext s' = audioContext s"
    "currentTime s' = currentTime s"
    "duration s' = duration s"
    "isDragging s' = isDragging s"
    "sourceRef s' = Some (nextSource s)"
    "startTimeRef s' = now - pausedAtRef s"
    "pausedAtRef s' = pausedAtRef s"
    "animationRef s' = animationRef s"
    "hasCleanup s' = hasCleanup s"
    "nextSource s' = Suc (nextSource s)"
    "clock s' = clock s"
    "0 \<le> pausedAtRef s"
  using assms by (auto simp: startSegment_def Let_def split: if_splits)

lemma sources_startSegment:
  assumes "startSegment now d s = Inr s'"
  shows "sources s' k =
     (if k = nextSource s
      then Some \<lparr>startOffset = pausedAtRef s, endAt = now + max 0 (d - pausedAtRef s),
                 capDuration = d, status = Running\<rparr>
      else sources s k)"
  using assms by (auto simp: startSegment_def Let_def split: if_splits)

lemma alive_startSegment:
  assumes "startSegment now d s = Inr s'"
  shows "alive s' k \<longleftrightarrow> k = nextSource s \<or> alive s k"
  by (simp add: alive_def sources_startSegment [OF assms])

lemma timed_startSegment:
  assumes "startSegment now d s = Inr s'" "buffer s = Some d"
  shows "timed s' (nextSource s)"
  using assms(2)
  by (simp add: timed_def sources_startSegment [OF assms(1)] startSegment_fields [OF assms(1)])

lemma emitter_startSegment:
  assumes "startSegment now d s = Inr s'"
  shows "emitterActive s'" "emitterOffset s' = Some (pausedAtRef s)"
  by (simp_all add: emitterActive_def emitterOffset_def alive_def
      sources_startSegment [OF assms] startSegment_fields [OF assms])

lemma cleanup_fields [simp]:
  "isPlaying (cleanup s) = isPlaying s"
  "buffer (cleanup s) = buffer s"
  "audioContext (cleanup s) = audioContext s"
  "currentTime (cleanup s) = currentTime s"
  "duration (cleanup s) = duration s"
  "isDragging (cleanup s) = isDragging s"
  "sourceRef (cleanup s) = sourceRef s"
  "startTimeRef (cleanup s) = startTimeRef s"
  "pausedAtRef (cleanup s) = pausedAtRef s"
  "hasCleanup (cleanup s) = hasCleanup s"
  "nextSource (cleanup s) = nextSource s"
  "clock (cleanup s) = clock s"
  by (simp_all add: cleanup_def split: option.splits)

lemma alive_cleanup: "alive (cleanup s) h \<Longrightarrow> alive s h"
  by (cases "sourceRef s") (simp_all add: cleanup_def split: if_splits)

lemma emitterActive_iff: "emitterActive s \<longleftrightarrow> (\<exists>h. sourceRef s = Some h \<and> alive s h)"
  by (cases "sourceRef s") (simp_all add: emitterActive_def)

subsection \<open>The invariant holds in every reachable state\<close>

lemma inv_init: "player_inv init"
  by (simp add: player_inv_def init_def emitterActive_def alive_def sane_def)

lemma inv_pre: "player_inv s \<Longrightarrow> pre s"
  by (cases "animationRef s") (auto simp: player_inv_def pre_def)

lemma inv_sane: "player_inv s \<Longrightarrow> sane s"
  by (simp add: player_inv_def)

lemma inv_aliveD:
  "player_inv s \<Longrightarrow> alive s h \<Longrightarrow>
     sourceRef s = Some h \<and> isPlaying s \<and> buffer s \<noteq> None \<and> timed s h"
  by (simp add: player_inv_def)

lemma inv_rafD:
  "player_inv s \<Longrightarrow> animationRef s = Some (g, d) \<Longrightarrow>
     g = isDragging s \<and> buffer s = Some d \<and> isPlaying s"
  by (simp add: player_inv_def)

lemma inv_cleanupD: "player_inv s \<Longrightarrow> hasCleanup s \<longleftrightarrow> buffer s \<noteq> None"
  by (simp add: player_inv_def)

lemma cleanup_mid: "pre s \<Longrightarrow> mid (cleanup s)"
  by (cases "sourceRef s") (auto simp: pre_def mid_def quiet_def cleanup_def sane_def)

lemma durationEffect_mid: "mid s \<Longrightarrow> mid (durationEffect s)"
  by (auto simp: mid_def quiet_def durationEffect_def alive_def sane_def split: option.splits)

lemma playbackEffect_inv:
  assumes "mid s" and "clock s = now"
  shows "yields (playbackEffect now s) player_inv"
proof (cases "buffer s")
  case None
  with assms show ?thesis
    by (simp add: playbackEffect_def player_inv_def mid_def quiet_def alive_def sane_def)
next
  case (Some d)
  with assms have ctx: "audioContext s" and d: "0 < d"
    and q: "\<And>h. \<not> alive s h"
    and t: "0 \<le> pausedAtRef s" "0 \<le> currentTime s" "startTimeRef s \<le> now"
    and sn: "sane s"
    by (auto simp: mid_def sane_def quiet_def)
  show ?thesis
  proof (cases "isPlaying s")
    case True
    from t(1) obtain s1 where h: "startSegment now d s = Inr s1"
      using startSegment_ex by blast
    note f = startSegment_fields [OF h]
    let ?r = "s1\<lparr>animationRef := Some (isDragging s, d), hasCleanup := True\<rparr>"
    have r: "playbackEffect now s = Inr ?r"
      using Some ctx True h by (simp add: playbackEffect_def)
    have "player_inv ?r"
      unfolding player_inv_def
    proof (intro conjI allI impI)
      fix k assume "alive ?r k"
      then have "k = nextSource s" using q by (simp add: alive_startSegment [OF h])
      with True Some timed_startSegment [OF h Some] f
      show "sourceRef ?r = Some k" "isPlaying ?r" "buffer ?r \<noteq> None" "timed ?r k"
        by (simp_all add: timed_def)
    next
      show "emitterActive ?r" using emitter_startSegment(1) [OF h]
        by (simp add: emitterActive_iff)
      show "animationRef ?r \<noteq> None" by simp
    next
      show "hasCleanup ?r = (buffer ?r \<noteq> None)" using Some f by simp
    next
      fix g d' assume "animationRef ?r = Some (g, d')"
      with True Some f show "g = isDragging ?r" "buffer ?r = Some d'" "isPlaying ?r"
        by simp_all
    next
      show "sane ?r" using sn t assms(2) f by (simp add: sane_def)
    qed
    with r show ?thesis by simp
  next
    case False
    with Some ctx d q t assms show ?thesis
      by (cases "sourceRef s")
        (auto simp: playbackEffect_def player_inv_def mid_def Let_def emitterActive_def sane_def)
  qed
qed

lemma effects_inv:
  assumes "pre s" and "clock s = now"
  shows "yields (playbackEffect now (cleanup s)) player_inv"
    and "yields (playbackEffect now (durationEffect (cleanup s))) player_inv"
proof -
  have c: "clock (cleanup s) = now" "clock (durationEffect (cleanup s)) = now"
    using assms(2) by (auto simp: cleanup_def durationEffect_def split: option.splits)
  from assms(1) have m: "mid (cleanup s)" by (rule cleanup_mid)
  from m c(1) show "yields (playbackEffect now (cleanup s)) player_inv"
    by (rule playbackEffect_inv)
  from m have "mid (durationEffect (cleanup s))" by (rule durationEffect_mid)
  then show "yields (playbackEffect now (durationEffect (cleanup s))) player_inv"
    using c(2) by (rule playbackEffect_inv)
qed

lemma commit_parent_inv:
  assumes "pre new" and "clock new = now"
  shows "yields (commit True now old new) player_inv"
  using effects_inv [OF assms] by (simp add: commit_def Let_def)

lemma inv_cong:
  assumes "player_inv s"
    and "sources s' = sources s" "sourceRef s' = sourceRef s" "isPlaying s' = isPlaying s"
    and "buffer s' = buffer s" "startTimeRef s' = startTimeRef s"
    and "hasCleanup s' = hasCleanup s" "animationRef s' = animationRef s"
    and "isDragging s' = isDragging s" "audioContext s' = audioContext s"
    and "0 \<le> pausedAtRef s'" "0 \<le> currentTime s'" "startTimeRef s \<le> clock s'"
  shows "player_inv s'"
proof -
  have a: "alive s' = alive s"
    using assms(2) by (simp add: alive_def fun_eq_iff)
  have e: "emitterActive s' = emitterActive s"
    using assms(3) a by (simp add: emitterActive_iff)
  have t: "timed s' = timed s"
    using assms(2,5,6) by (simp add: timed_def fun_eq_iff)
  from assms show ?thesis
    unfolding player_inv_def sane_def a e t by simp
qed

lemma inv_clock: "player_inv s \<Longrightarrow> clock s \<le> now \<Longrightarrow> player_inv (s\<lparr>clock := now\<rparr>)"
  by (rule inv_cong, assumption) (use inv_sane[of s] in \<open>simp_all add: sane_def\<close>)

lemma commit_child:
  assumes "buffer new = buffer old" "isPlaying new = isPlaying old"
    "audioContext new = audioContext old"
  shows "commit False now old new =
    (if isDragging new \<noteq> isDragging old then playbackEffect now (cleanup new) else Inr new)"
  using assms by (simp add: commit_def Let_def)

lemma react_InitAudio_inv:
  assumes "player_inv s" "clock s = now"
  shows "yields (react now InitAudio s) player_inv"
proof -
  from assms(1) have "pre s" by (rule inv_pre)
  then have "pre (s\<lparr>audioContext := True\<rparr>)" by (simp add: pre_def sane_def)
  with assms(2) show ?thesis by (simp add: commit_parent_inv)
qed

lemma react_Loaded_inv:
  assumes "player_inv s" "clock s = now" "allowed (Loaded d) now s"
  shows "yields (react now (Loaded d) s) player_inv"
proof -
  from assms(1) have "pre s" by (rule inv_pre)
  with assms(3) have "pre (s\<lparr>isPlaying := True, buffer := Some d\<rparr>)"
    by (simp add: pre_def sane_def)
  with assms(2) show ?thesis by (simp add: commit_parent_inv)
qed

lemma react_Unload_inv:
  assumes "player_inv s" "clock s = now"
  shows "yields (react now Unload s) player_inv"
proof -
  from assms(1) have "pre s" by (rule inv_pre)
  then have "pre (s\<lparr>isPlaying := False, buffer := None\<rparr>)" by (simp add: pre_def sane_def)
  with assms(2) show ?thesis by (simp add: commit_parent_inv)
qed

lemma react_Toggle_inv:
  assumes "player_inv s" "clock s = now"
  shows "yields (react now Toggle s) player_inv"
proof -
  from assms(1) have "pre s" by (rule inv_pre)
  then have "pre (s\<lparr>isPlaying := \<not> isPlaying s\<rparr>)" by (simp add: pre_def sane_def)
  with assms(2) show ?thesis by (simp add: commit_parent_inv)
qed

lemma react_ParentRender_inv:
  assumes "player_inv s" "clock s = now"
  shows "yields (react now ParentRender s) player_inv"
  using assms by (simp add: commit_parent_inv inv_pre)

lemma react_SeekStart_inv:
  assumes "player_inv s" "clock s = now"
  shows "yields (react now SeekStart s) player_inv"
proof (cases "isDragging s")
  case True
  with assms(1) have "player_inv (s\<lparr>isDragging := True\<rparr>)"
    by (intro inv_cong[OF assms(1)]) (use inv_sane[of s] in \<open>simp_all add: sane_def\<close>)
  with True show ?thesis by (simp add: commit_child handleSeekStart_def)
next
  case False
  from assms(1) have "pre s" by (rule inv_pre)
  then have "pre (s\<lparr>isDragging := True\<rparr>)" by (simp add: pre_def sane_def)
  then have "yields (playbackEffect now (cleanup (s\<lparr>isDragging := True\<rparr>))) player_inv"
    using assms(2) by (intro effects_inv) simp_all
  with False show ?thesis by (simp add: commit_child handleSeekStart_def)
qed

lemma react_SeekChange_inv:
  assumes "player_inv s" "allowed (SeekChange v) now s"
  shows "yields (react now (SeekChange v) s) player_inv"
proof -
  have "player_inv (s\<lparr>currentTime := v\<rparr>)"
    by (rule inv_cong[OF assms(1)])
      (use assms(2) inv_sane[OF assms(1)] in \<open>simp_all add: sane_def\<close>)
  then show ?thesis by (simp add: commit_child handleSeekChange_def)
qed

lemma react_Tick_inv:
  assumes "player_inv s" "clock s = now"
  shows "yields (react now Tick s) player_inv"
proof (cases "animationRef s")
  case None
  with assms show ?thesis by (simp add: updateProgress_def)
next
  case (Some c)
  obtain g d where c: "c = (g, d)" by (cases c)
  with Some assms(1) have "buffer s = Some d" by (simp add: player_inv_def)
  with assms(1) have "0 < d" "startTimeRef s \<le> clock s"
    by (simp_all add: player_inv_def sane_def)
  have "player_inv (s\<lparr>currentTime := min (now - startTimeRef s) d\<rparr>)"
    by (rule inv_cong[OF assms(1)])
      (use assms(2) \<open>0 < d\<close> \<open>startTimeRef s \<le> clock s\<close> inv_sane[OF assms(1)]
        in \<open>simp_all add: sane_def\<close>)
  with Some c assms show ?thesis
    by (simp add: updateProgress_def)
qed

text \<open>
  Step 2 of \<open>handleSeekEnd\<close> in a state of the invariant: without a running node it
  does nothing; otherwise it stops the node in \<open>sourceRef\<close> and starts the next one.
\<close>

lemma seekRestart_idle:
  assumes "\<not> isPlaying s"
  shows "seekRestart now d s = Inr s"
  using assms by (simp add: seekRestart_def split: option.splits)

lemma seekRestart_playing:
  assumes "player_inv s" "isPlaying s" "buffer s = Some d"
  obtains h where "sourceRef s = Some h" "alive s h"
    "seekRestart now d s = startSegment now d (stopSource h s)"
proof -
  from assms have "emitterActive s" by (simp add: player_inv_def)
  then obtain h where h: "sourceRef s = Some h" "alive s h"
    by (auto simp: emitterActive_iff)
  with assms(2) have "seekRestart now d s = startSegment now d (stopSource h s)"
    by (simp add: seekRestart_def)
  with h that show ?thesis by blast
qed

lemma seekRestart_inv:
  assumes "player_inv s" "clock s = now" "buffer s = Some d"
  shows "yields (seekRestart now d s)
     (\<lambda>x. player_inv x \<and> buffer x = buffer s \<and> isPlaying x = isPlaying s
        \<and> audioContext x = audioContext s \<and> isDragging x = isDragging s
        \<and> clock x = clock s)"
proof (cases "isPlaying s")
  case False
  with assms(1) show ?thesis by (simp add: seekRestart_idle)
next
  case True
  from assms(1) True assms(3) obtain h where h: "sourceRef s = Some h" "alive s h"
    and r: "seekRestart now d s = startSegment now d (stopSource h s)"
    by (rule seekRestart_playing)
  have sn: "sane s" using assms(1) by (rule inv_sane)
  then have "0 \<le> pausedAtRef (stopSource h s)" by (simp add: sane_def)
  then obtain x where x: "startSegment now d (stopSource h s) = Inr x"
    using startSegment_ex by blast
  note f = startSegment_fields [OF x]
  have only: "alive s k \<Longrightarrow> k = h" for k
    using inv_aliveD[OF assms(1), of k] h by simp
  have al: "alive x k \<longleftrightarrow> k = nextSource s" for k
    using only[of k] by (auto simp: alive_startSegment [OF x])
  have "player_inv x"
    unfolding player_inv_def
  proof (intro conjI allI impI)
    fix k assume "alive x k"
    then have "k = nextSource s" by (simp only: al)
    with True assms(3) timed_startSegment [OF x] f
    show "sourceRef x = Some k" "isPlaying x" "buffer x \<noteq> None" "timed x k"
      by simp_all
  next
    show "emitterActive x" by (rule emitter_startSegment(1) [OF x])
    have "animationRef s \<noteq> None"
      using assms(1,3) True by (simp add: player_inv_def)
    then show "animationRef x \<noteq> None" using f by simp
  next
    show "hasCleanup x = (buffer x \<noteq> None)"
      using inv_cleanupD[OF assms(1)] f by simp
  next
    fix g d' assume "animationRef x = Some (g, d')"
    with inv_rafD[OF assms(1), of g d'] f
    show "g = isDragging x" "buffer x = Some d'" "isPlaying x" by simp_all
  next
    show "sane x" using sn assms(2) f by (simp add: sane_def)
  qed
  with r x f show ?thesis by simp
qed

lemma react_SeekEnd_inv:
  assumes "player_inv s" "clock s = now" "allowed SeekEnd now s"
  shows "yields (react now SeekEnd s) player_inv"
proof -
  from assms(3) obtain d where d: "buffer s = Some d" by auto
  with assms(1) have ctx: "audioContext s" by (simp add: player_inv_def sane_def)
  let ?s0 = "s\<lparr>pausedAtRef := currentTime s\<rparr>"
  have "player_inv ?s0"
    by (rule inv_cong[OF assms(1)]) (use inv_sane[OF assms(1)] in \<open>simp_all add: sane_def\<close>)
  then have "yields (seekRestart now d ?s0)
     (\<lambda>x. player_inv x \<and> buffer x = buffer ?s0 \<and> isPlaying x = isPlaying ?s0
        \<and> audioContext x = audioContext ?s0 \<and> isDragging x = isDragging ?s0
        \<and> clock x = clock ?s0)"
    using assms(2) d by (intro seekRestart_inv) simp_all
  then obtain x where x: "seekRestart now d ?s0 = Inr x" and i: "player_inv x"
    and same: "buffer x = buffer s" "isPlaying x = isPlaying s"
      "audioContext x = audioContext s" "isDragging x = isDragging s" "clock x = clock s"
    by (auto simp: yields_iff)
  have h: "handleSeekEnd now s = Inr (x\<lparr>isDragging := False\<rparr>)"
    using d ctx x by (simp add: handleSeekEnd_def)
  show ?thesis
  proof (cases "isDragging s")
    case False
    have "player_inv (x\<lparr>isDragging := False\<rparr>)"
      by (rule inv_cong[OF i]) (use False same inv_sane[OF i] in \<open>simp_all add: sane_def\<close>)
    with False same show ?thesis by (simp add: h commit_child)
  next
    case True
    from i have "pre x" by (rule inv_pre)
    then have "pre (x\<lparr>isDragging := False\<rparr>)" by (simp add: pre_def sane_def)
    then have "yields (playbackEffect now (cleanup (x\<lparr>isDragging := False\<rparr>))) player_inv"
      using assms(2) same by (intro effects_inv) simp_all
    with True same show ?thesis by (simp add: h commit_child)
  qed
qed

lemma react_Ended_inv:
  assumes "player_inv s" "clock s = now" "allowed (Ended h) now s"
  shows "yields (react now (Ended h) s) player_inv"
proof -
  from assms(3) obtain n where n: "sources s h = Some n"
    and st: "status n = Stopped \<or> (status n = Running \<and> endAt n \<le> now)"
    by (auto split: option.splits)
  let ?s1 = "s\<lparr>sources := (sources s)(h \<mapsto> n\<lparr>status := Finished\<rparr>)\<rparr>"
  have sn: "sane s" using assms(1) by (rule inv_sane)
  show ?thesis
  proof (cases "now - startTimeRef s \<ge> capDuration n - 1 / 10")
    case guard: True
    let ?s2 = "?s1\<lparr>isPlaying := False, pausedAtRef := 0, currentTime := 0\<rparr>"
    have s2: "onended now (capDuration n) ?s1 = ?s2"
      using guard by (simp add: onended_def)
    show ?thesis
    proof (cases "isPlaying s")
      case True
      have "pre ?s2"
        unfolding pre_def
      proof (intro conjI allI impI)
        fix k assume "alive ?s2 k"
        then have "alive s k" by (simp add: alive_def split: if_splits)
        with inv_aliveD[OF assms(1), of k] inv_cleanupD[OF assms(1)]
        show "sourceRef ?s2 = Some k" "hasCleanup ?s2" by simp_all
      next
        show "hasCleanup ?s2 \<or> animationRef ?s2 = None"
          using inv_pre[OF assms(1)] by (simp add: pre_def)
      next
        show "sane ?s2" using sn by (simp add: sane_def)
      qed
      then have "yields (commit True now ?s1 ?s2) player_inv"
        using assms(2) by (intro commit_parent_inv) simp_all
      with True n s2 show ?thesis by (simp add: Let_def)
    next
      case False
      have quiet: "\<not> alive s k" for k
        using inv_aliveD[OF assms(1), of k] False by blast
      have "player_inv ?s2"
        unfolding player_inv_def
      proof (intro conjI allI impI)
        fix k assume "alive ?s2 k"
        then have "alive s k" by (simp add: alive_def split: if_splits)
        with quiet show "sourceRef ?s2 = Some k" "isPlaying ?s2" "buffer ?s2 \<noteq> None" "timed ?s2 k"
          by simp_all
      next
        assume "isPlaying ?s2" then show "emitterActive ?s2" "animationRef ?s2 \<noteq> None"
          by simp_all
      next
        show "hasCleanup ?s2 = (buffer ?s2 \<noteq> None)" using inv_cleanupD[OF assms(1)] by simp
      next
        fix g d assume "animationRef ?s2 = Some (g, d)"
        with inv_rafD[OF assms(1), of g d] False
        show "g = isDragging ?s2" "buffer ?s2 = Some d" "isPlaying ?s2" by simp_all
      next
        show "sane ?s2" using sn by (simp add: sane_def)
      qed
      with False n s2 show ?thesis by (simp add: Let_def commit_child)
    qed
  next
    case noguard: False
    have s2: "onended now (capDuration n) ?s1 = ?s1"
      using noguard by (simp add: onended_def)
    have notrun: "status n \<noteq> Running"
    proof
      assume r: "status n = Running"
      with n have "alive s h" by (simp add: alive_def)
      with inv_aliveD[OF assms(1), of h] n have "startTimeRef s + capDuration n \<le> endAt n"
        by (simp add: timed_def)
      moreover from r st have "endAt n \<le> now" by simp
      ultimately show False using noguard by simp
    qed
    have al: "alive ?s1 k \<longleftrightarrow> alive s k" for k
      using notrun n by (auto simp: alive_def)
    have tm: "alive s k \<Longrightarrow> timed ?s1 k \<longleftrightarrow> timed s k" for k
      using notrun n by (auto simp: alive_def timed_def)
    have "player_inv ?s1"
      unfolding player_inv_def
    proof (intro conjI allI impI)
      fix k assume "alive ?s1 k"
      then have k: "alive s k" by (simp only: al)
      with inv_aliveD[OF assms(1), of k] tm[of k]
      show "sourceRef ?s1 = Some k" "isPlaying ?s1" "buffer ?s1 \<noteq> None" "timed ?s1 k"
        by simp_all
    next
      assume "isPlaying ?s1" "buffer ?s1 \<noteq> None"
      with assms(1) have ea: "emitterActive s \<and> animationRef s \<noteq> None"
        by (simp add: player_inv_def)
      then show "emitterActive ?s1" unfolding emitterActive_iff al by simp
      from ea show "animationRef ?s1 \<noteq> None" by simp
    next
      show "hasCleanup ?s1 = (buffer ?s1 \<noteq> None)" using inv_cleanupD[OF assms(1)] by simp
    next
      fix g d assume "animationRef ?s1 = Some (g, d)"
      with inv_rafD[OF assms(1), of g d]
      show "g = isDragging ?s1" "buffer ?s1 = Some d" "isPlaying ?s1" by simp_all
    next
      show "sane ?s1" using sn by (simp add: sane_def)
    qed
    with n s2 show ?thesis by (simp add: Let_def commit_child)
  qed
qed

lemma step_inv:
  assumes "player_inv s" "enabled now e s"
  shows "yields (step now e s) player_inv"
proof -
  let ?s = "s\<lparr>clock := now\<rparr>"
  from assms have i: "player_inv ?s" by (simp add: inv_clock enabled_def)
  have c: "clock ?s = now" by simp
  have a: "allowed e now ?s"
    using assms(2) by (cases e) (auto simp: enabled_def)
  show ?thesis
    unfolding step_def
  proof (cases e)
    case InitAudio with i c show "yields (react now e ?s) player_inv"
      by (simp only: react_InitAudio_inv)
  next
    case (Loaded d) with i c a show "yields (react now e ?s) player_inv"
      by (simp only: react_Loaded_inv)
  next
    case Unload with i c show "yields (react now e ?s) player_inv"
      by (simp only: react_Unload_inv)
  next
    case Toggle with i c show "yields (react now e ?s) player_inv"
      by (simp only: react_Toggle_inv)
  next
    case SeekStart with i c show "yields (react now e ?s) player_inv"
      by (simp only: react_SeekStart_inv)
  next
    case (SeekChange v) with i a show "yields (react now e ?s) player_inv"
      by (simp only: react_SeekChange_inv)
  next
    case SeekEnd with i c a show "yields (react now e ?s) player_inv"
      by (simp only: react_SeekEnd_inv)
  next
    case Tick with i c show "yields (react now e ?s) player_inv"
      by (simp only: react_Tick_inv)
  next
    case (Ended h) with i c a show "yields (react now e ?s) player_inv"
      by (simp only: react_Ended_inv)
  next
    case ParentRender with i c show "yields (react now e ?s) player_inv"
      by (simp only: react_ParentRender_inv)
  qed
qed

lemma reachable_inv: "reachable s \<Longrightarrow> player_inv s"
proof (induction rule: reachable.induct)
  case reachable_init
  show ?case by (rule inv_init)
next
  case (reachable_step s now e s')
  from step_inv [OF reachable_step.IH reachable_step.hyps(2)] reachable_step.hyps(3)
  show ?case by simp
qed

text \<open>
  No event that the environment can produce in a reachable state ends in an
  exception: the offset handed to \<open>source.start\<close> is never negative there.
\<close>

lemma step_no_error:
  assumes "reachable s" "enabled now e s"
  shows "\<exists>s'. step now e s = Inr s' \<and> reachable s'"
proof -
  from assms(1) have "player_inv s" by (rule reachable_inv)
  then have "yields (step now e s) player_inv" using assms(2) by (rule step_inv)
  then obtain s' where "step now e s = Inr s'" by (auto simp: yields_iff)
  with assms show ?thesis by (blast intro: reachable_step)
qed

lemma admissible_reachable: "reachable s \<Longrightarrow> admissible es s \<Longrightarrow> yields (run es s) reachable"
proof (induction es arbitrary: s)
  case Nil
  then show ?case by simp
next
  case (Cons x es)
  obtain now e where x: "x = (now, e)" by (cases x)
  with Cons.prems obtain s' where s': "enabled now e s" "step now e s = Inr s'" "admissible es s'"
    by (auto split: sum.splits)
  with Cons.prems(1) have "reachable s'" by (blast intro: reachable_step)
  with Cons.IH s' x show ?case by simp
qed

text \<open>The equations that evaluate a run on concrete events.\<close>

lemmas eval_defs = step_def enabled_def commit_def cleanup_def playbackEffect_def
  durationEffect_def startSegment_def stopSource_def onended_def updateProgress_def
  handleSeekStart_def handleSeekChange_def handleSeekEnd_def seekRestart_def init_def
  alive_def emitterActive_def emitterOffset_def nodeStatus_def nodeOffset_def Let_def

subsection \<open>Handles are fresh\<close>












lemma run_reachable:
  assumes "admissible es init"
  obtains s where "run es init = Inr s" "reachable s"
  using admissible_reachable [OF reachable_init assms] by (auto simp: yields_iff)

lemma run_snoc:
  "run (es @ [(now, e)]) s = (case run es s of Inl x \<Rightarrow> Inl x | Inr s1 \<Rightarrow> step now e s1)"
  by (induction es arbitrary: s) (auto split: sum.splits)

lemma run_snoc_Inr: "run es s0 = Inr s \<Longrightarrow> run (es @ [(now, e)]) s0 = step now e s"
  by (simp add: run_snoc)

subsection \<open>Emitter and Playing\<close>

text \<open>
  Claim C2. In every reachable state of the player an active emitter (a running
  source node held in \<open>sourceRef\<close>) is present if and only if the player is Playing,
  that is \<open>isPlaying\<close> is true and a buffer is loaded.
\<close>

theorem emitter_iff_playing:
  "reachable s \<Longrightarrow> emitterActive s \<longleftrightarrow> isPlaying s \<and> buffer s \<noteq> None"
proof -
  assume "reachable s"
  then have i: "player_inv s" by (rule reachable_inv)
  show ?thesis
  proof
    assume "emitterActive s"
    then obtain h where "alive s h" by (auto simp: emitterActive_iff)
    with i show "isPlaying s \<and> buffer s \<noteq> None" by (simp add: inv_aliveD)
  next
    assume "isPlaying s \<and> buffer s \<noteq> None"
    with i show "emitterActive s" by (simp add: player_inv_def)
  qed
qed

text \<open>Witness: a clip of 10 seconds has been loaded and plays.\<close>

theorem emitter_iff_playing_witness:
  "seen reachable (run [(0, InitAudio), (0, Loaded 10)] init) = Some True
   \<and> seen emitterActive (run [(0, InitAudio), (0, Loaded 10)] init) = Some True
   \<and> seen isPlaying (run [(0, InitAudio), (0, Loaded 10)] init) = Some True
   \<and> seen buffer (run [(0, InitAudio), (0, Loaded 10)] init) = Some (Some 10)"
proof -
  have a: "admissible [(0, InitAudio), (0, Loaded 10)] init"
    by (simp add: eval_defs)
  then obtain s where s: "run [(0, InitAudio), (0, Loaded 10)] init = Inr s" and r: "reachable s"
    by (rule run_reachable)
  have "seen isPlaying (run [(0, InitAudio), (0, Loaded 10)] init) = Some True"
    "seen buffer (run [(0, InitAudio), (0, Loaded 10)] init) = Some (Some 10)"
    by (simp_all add: eval_defs)
  with s have p: "isPlaying s" "buffer s = Some 10" by simp_all
  with emitter_iff_playing [OF r] r show ?thesis unfolding s by simp
qed

subsection \<open>Toggling without a clip\<close>

text \<open>
  Claim C10. Toggling play while no clip is loaded (\<open>buffer\<close> is \<open>null\<close>, or there is
  no AudioContext) is a safe no-op: it raises nothing, creates no source node and
  leaves the stored offset, the segment start time and the reported position
  unchanged. Buffer and context stay as they are, so this holds for any number of
  toggles.
\<close>

theorem toggle_without_clip:
  assumes "buffer s = None \<or> \<not> audioContext s"
  shows "\<exists>s'. step now Toggle s = Inr s'
    \<and> nextSource s' = nextSource s
    \<and> (\<forall>h. alive s' h \<longrightarrow> alive s h)
    \<and> sourceRef s' = sourceRef s
    \<and> pausedAtRef s' = pausedAtRef s
    \<and> startTimeRef s' = startTimeRef s
    \<and> currentTime s' = currentTime s
    \<and> buffer s' = buffer s
    \<and> audioContext s' = audioContext s"
proof -
  let ?n = "s\<lparr>clock := now, isPlaying := \<not> isPlaying s\<rparr>"
  have st: "step now Toggle s = Inr ((cleanup ?n)\<lparr>hasCleanup := False\<rparr>)"
    using assms by (auto simp: step_def commit_def playbackEffect_def Let_def split: option.splits)
  have "alive (cleanup ?n) h \<Longrightarrow> alive s h" for h
    using alive_cleanup[of ?n h] by simp
  then show ?thesis unfolding st by simp
qed

text \<open>Witness: the initial state, before any AudioContext or buffer exists.\<close>

theorem toggle_without_clip_witness:
  "buffer init = None
   \<and> seen nextSource (step 5 Toggle init) = Some 0
   \<and> seen sourceRef (step 5 Toggle init) = Some None
   \<and> seen pausedAtRef (step 5 Toggle init) = Some 0
   \<and> seen startTimeRef (step 5 Toggle init) = Some 0
   \<and> seen currentTime (step 5 Toggle init) = Some 0"
proof -
  have h: "buffer init = None \<or> \<not> audioContext init" by (simp add: init_def)
  have i: "nextSource init = 0" "sourceRef init = None" "pausedAtRef init = 0"
    "startTimeRef init = 0" "currentTime init = 0" "buffer init = None"
    by (simp_all add: init_def)
  from toggle_without_clip [OF h, of 5] obtain s' where "step 5 Toggle init = Inr s'"
    "nextSource s' = nextSource init" "sourceRef s' = sourceRef init"
    "pausedAtRef s' = pausedAtRef init" "startTimeRef s' = startTimeRef init"
    "currentTime s' = currentTime init"
    by blast
  with i show ?thesis by simp
qed

subsection \<open>The position tracker\<close>

text \<open>
  Claim C8. While the player is Playing an animation frame is pending, and every tick
  reports \<open>min (now - startTimeRef) duration\<close> as the position when no scrub is in
  progress, and leaves the position the caller set unchanged while one is.
\<close>

theorem tick_reports_position:
  assumes "reachable s" "isPlaying s" "buffer s = Some d"
  shows "enabled now Tick s = (clock s \<le> now)
    \<and> (\<exists>s'. step now Tick s = Inr s'
          \<and> currentTime s' =
              (if isDragging s then currentTime s else min (now - startTimeRef s) d))"
proof -
  from assms(1) have i: "player_inv s" by (rule reachable_inv)
  with assms(2,3) obtain c where c: "animationRef s = Some c"
    by (auto simp: player_inv_def)
  obtain g d' where gd: "c = (g, d')" by (cases c)
  with c inv_rafD[OF i, of g d'] assms(3) have "g = isDragging s" "d' = d" by simp_all
  with c gd show ?thesis
    by (simp add: enabled_def step_def updateProgress_def)
qed

text \<open>
  Witness: ticks 3 and 12 seconds into a clip of 10 seconds, and a tick during a
  scrub that moved the slider to 7.
\<close>

theorem tick_reports_position_witness:
  "seen reachable (run [(0, InitAudio), (0, Loaded 10)] init) = Some True
   \<and> seen (enabled 3 Tick) (run [(0, InitAudio), (0, Loaded 10)] init) = Some True
   \<and> seen currentTime (run [(0, InitAudio), (0, Loaded 10), (3, Tick)] init) = Some 3
   \<and> seen currentTime (run [(0, InitAudio), (0, Loaded 10), (12, Tick)] init) = Some 10
   \<and> seen reachable (run [(0, InitAudio), (0, Loaded 10), (2, SeekStart), (2, SeekChange 7)] init)
        = Some True
   \<and> seen currentTime (run [(0, InitAudio), (0, Loaded 10), (2, SeekStart), (2, SeekChange 7),
        (3, Tick)] init) = Some 7"
proof -
  let ?es = "[(0, InitAudio), (0, Loaded 10)]"
  let ?fs = "[(0, InitAudio), (0, Loaded 10), (2, SeekStart), (2, SeekChange 7)]"
  have a: "admissible ?es init" "admissible ?fs init"
    by (simp_all add: eval_defs)
  from a(1) obtain s where s: "run ?es init = Inr s" and rs: "reachable s"
    by (rule run_reachable)
  from a(2) obtain t where t: "run ?fs init = Inr t" and rt: "reachable t"
    by (rule run_reachable)
  have "seen isPlaying (run ?es init) = Some True" "seen buffer (run ?es init) = Some (Some 10)"
    "seen isDragging (run ?es init) = Some False" "seen startTimeRef (run ?es init) = Some 0"
    "seen clock (run ?es init) = Some 0"
    by (simp_all add: eval_defs)
  with s have p: "isPlaying s" "buffer s = Some 10" "\<not> isDragging s" "startTimeRef s = 0"
    "clock s = 0"
    by simp_all
  have "seen isPlaying (run ?fs init) = Some True" "seen buffer (run ?fs init) = Some (Some 10)"
    "seen isDragging (run ?fs init) = Some True" "seen currentTime (run ?fs init) = Some 7"
    by (simp_all add: eval_defs)
  with t have q: "isPlaying t" "buffer t = Some 10" "isDragging t" "currentTime t = 7"
    by simp_all
  have 1: "run [(0, InitAudio), (0, Loaded 10), (3, Tick)] init = step 3 Tick s"
    "run [(0, InitAudio), (0, Loaded 10), (12, Tick)] init = step 12 Tick s"
    "run [(0, InitAudio), (0, Loaded 10), (2, SeekStart), (2, SeekChange 7), (3, Tick)] init
       = step 3 Tick t"
    using run_snoc_Inr [OF s, of 3 Tick] run_snoc_Inr [OF s, of 12 Tick]
      run_snoc_Inr [OF t, of 3 Tick]
    by simp_all
  from tick_reports_position [OF rs p(1,2), of 3] p
  have 2: "enabled 3 Tick s" "seen currentTime (step 3 Tick s) = Some 3" by auto
  from tick_reports_position [OF rs p(1,2), of 12] p
  have 3: "seen currentTime (step 12 Tick s) = Some 10" by auto
  from tick_reports_position [OF rt q(1,2), of 3] q
  have 4: "seen currentTime (step 3 Tick t) = Some 7" by auto
  show ?thesis unfolding 1 s t using 2 3 4 rs rt by simp
qed

subsection \<open>Play and pause\<close>

text \<open>
  What the toggle does with a clip loaded, from a state that is not playing and from a
  playing state. The start throws when the stored offset is negative, which it never
  is in a reachable state.
\<close>

lemma emitter_cong:
  assumes "sources s' = sources s" "sourceRef s' = sourceRef s"
  shows "emitterActive s' = emitterActive s" "emitterOffset s' = emitterOffset s"
  using assms
  by (cases "sourceRef s"; simp add: emitterActive_def emitterOffset_def alive_def)+

lemma toggle_play:
  assumes "buffer s = Some d" "audioContext s" "\<not> isPlaying s" "0 \<le> pausedAtRef s"
  obtains s' where "step now Toggle s = Inr s'"
    "isPlaying s'" "buffer s' = Some d" "audioContext s'"
    "isDragging s' = isDragging s"
    "pausedAtRef s' = pausedAtRef s"
    "startTimeRef s' = now - pausedAtRef s"
    "sourceRef s' = Some (nextSource s)"
    "emitterActive s'"
    "emitterOffset s' = Some (pausedAtRef s)"
proof -
  let ?c = "cleanup (s\<lparr>clock := now, isPlaying := True\<rparr>)"
  from assms(4) have "0 \<le> pausedAtRef ?c" by simp
  then obtain x where x: "startSegment now d ?c = Inr x"
    using startSegment_ex by blast
  note f = startSegment_fields [OF x]
  let ?r = "x\<lparr>animationRef := Some (isDragging s, d), hasCleanup := True\<rparr>"
  have st: "step now Toggle s = Inr ?r"
    using assms x by (simp add: step_def commit_def playbackEffect_def Let_def)
  have "emitterActive ?r" "emitterOffset ?r = Some (pausedAtRef s)"
    using emitter_startSegment [OF x] emitter_cong [of ?r x]
    by simp_all
  with st f assms that [of ?r] show ?thesis by simp
qed

lemma toggle_play_throws:
  assumes "buffer s = Some d" "audioContext s" "\<not> isPlaying s" "pausedAtRef s < 0"
  shows "step now Toggle s = Inl RangeError"
proof -
  let ?c = "cleanup (s\<lparr>clock := now, isPlaying := True\<rparr>)"
  from assms(4) have "startSegment now d ?c = Inl RangeError"
    by (intro startSegment_Inl) simp
  with assms show ?thesis
    by (simp add: step_def commit_def playbackEffect_def Let_def)
qed

lemma toggle_pause:
  assumes "buffer s = Some d" "audioContext s" "isPlaying s"
  obtains s' where "step now Toggle s = Inr s'"
    "\<not> isPlaying s'" "buffer s' = Some d" "audioContext s'"
    "isDragging s' = isDragging s"
    "pausedAtRef s' = (if isDragging s then pausedAtRef s else now - startTimeRef s)"
    "startTimeRef s' = startTimeRef s"
    "sourceRef s' = None"
    "\<not> emitterActive s'"
    "animationRef s' = None"
proof -
  let ?c = "cleanup (s\<lparr>clock := now, isPlaying := False\<rparr>)"
  let ?s1 = "case sourceRef ?c of None \<Rightarrow> ?c | Some h \<Rightarrow> (stopSource h ?c)\<lparr>sourceRef := None\<rparr>"
  let ?s2 = "if \<not> isDragging ?s1 then ?s1\<lparr>pausedAtRef := now - startTimeRef ?s1\<rparr> else ?s1"
  let ?r = "?s2\<lparr>animationRef := None, hasCleanup := True\<rparr>"
  have st: "step now Toggle s = Inr ?r"
    using assms by (simp add: step_def commit_def playbackEffect_def Let_def)
  have f: "\<not> isPlaying ?r" "buffer ?r = Some d" "audioContext ?r"
    "isDragging ?r = isDragging s"
    "pausedAtRef ?r = (if isDragging s then pausedAtRef s else now - startTimeRef s)"
    "startTimeRef ?r = startTimeRef s"
    "sourceRef ?r = None"
    "animationRef ?r = None"
    using assms by (cases "sourceRef ?c"; simp)+
  then have "\<not> emitterActive ?r" by (simp add: emitterActive_def)
  with st f that [of ?r] show ?thesis by blast
qed

text \<open>
  Play, pause, play with nothing in between resumes where the pause was recorded: the
  new node is started at \<open>pausedAtRef\<close>, which the pause set to the offset before plus
  the time played.
\<close>

lemma resume_at_paused_offset:
  assumes "buffer s = Some d" "audioContext s" "\<not> isPlaying s" "\<not> isDragging s"
    and "0 \<le> pausedAtRef s" "t0 \<le> t1"
  shows "seen pausedAtRef (run [(t0, Toggle), (t1, Toggle)] s) = Some (pausedAtRef s + (t1 - t0))
    \<and> seen emitterActive (run [(t0, Toggle), (t1, Toggle), (t2, Toggle)] s) = Some True
    \<and> seen emitterOffset (run [(t0, Toggle), (t1, Toggle), (t2, Toggle)] s)
        = Some (Some (pausedAtRef s + (t1 - t0)))"
proof -
  from assms(1,2,3,5) obtain s1 where s1: "step t0 Toggle s = Inr s1"
    "isPlaying s1" "buffer s1 = Some d" "audioContext s1" "isDragging s1 = isDragging s"
    "startTimeRef s1 = t0 - pausedAtRef s"
    by (rule toggle_play [of s d t0])
  from s1(3,4,2) obtain s2 where s2: "step t1 Toggle s1 = Inr s2"
    "\<not> isPlaying s2" "buffer s2 = Some d" "audioContext s2"
    "pausedAtRef s2 = (if isDragging s1 then pausedAtRef s1 else t1 - startTimeRef s1)"
    by (rule toggle_pause [of s1 d t1])
  from s2(5) s1(5,6) assms(4) have p: "pausedAtRef s2 = pausedAtRef s + (t1 - t0)" by simp
  with assms(5,6) have "0 \<le> pausedAtRef s2" by simp
  with s2(3,4,2) obtain s3 where s3: "step t2 Toggle s2 = Inr s3"
    "emitterActive s3" "emitterOffset s3 = Some (pausedAtRef s2)"
    by (rule toggle_play [of s2 d t2])
  from s1(1) s2(1) s3 p show ?thesis by simp
qed

text \<open>
  Claim C6, on the code. The sequence play, pause after \<open>t\<close>, play is to resume at the
  offset recorded at the pause for every \<open>0 \<le> t < duration\<close>. The pause stops the
  node, and the browser then delivers the \<open>ended\<close> event of the stopped node. For a pause
  in the last tenth of a second of the clip the handler's test
  \<open>currentTime - startTimeRef >= duration - 0.1\<close> holds, the handler sets \<open>pausedAtRef\<close>
  to 0, and the next play starts the clip from zero. Here: a clip of 10 seconds, paused
  at 9.95.
\<close>

theorem resume_after_late_pause:
  "admissible [(0, InitAudio), (0, Loaded 10), (9.95, Toggle), (9.95, Ended 0), (12, Toggle)] init
   \<and> seen pausedAtRef (run [(0, InitAudio), (0, Loaded 10), (9.95, Toggle)] init) = Some 9.95
   \<and> seen pausedAtRef (run [(0, InitAudio), (0, Loaded 10), (9.95, Toggle), (9.95, Ended 0)] init)
       = Some 0
   \<and> seen isPlaying (run [(0, InitAudio), (0, Loaded 10), (9.95, Toggle), (9.95, Ended 0),
       (12, Toggle)] init) = Some True
   \<and> seen emitterOffset (run [(0, InitAudio), (0, Loaded 10), (9.95, Toggle), (9.95, Ended 0),
       (12, Toggle)] init) = Some (Some 0)"
  by (simp add: eval_defs)

text \<open>
  Claim C9, as stated: \<open>pause()\<close> while not Playing and \<open>play()\<close> while Playing change
  nothing. The code has one control for both, \<open>setIsAudioPlaying(!isAudioPlaying)\<close>, in
  \<open>onTogglePlay\<close> and in \<open>handlePlayAudio\<close> for the article that is loaded. Issued while
  the clip plays it pauses and records the offset; issued again it plays.
\<close>

theorem toggle_play_pause_counterexample:
  "seen isPlaying (run [(0, InitAudio), (0, Loaded 10)] init) = Some True
   \<and> seen pausedAtRef (run [(0, InitAudio), (0, Loaded 10)] init) = Some 0
   \<and> seen isPlaying (run [(0, InitAudio), (0, Loaded 10), (3, Toggle)] init) = Some False
   \<and> seen pausedAtRef (run [(0, InitAudio), (0, Loaded 10), (3, Toggle)] init) = Some 3
   \<and> seen isPlaying (run [(0, InitAudio), (0, Loaded 10), (3, Toggle), (5, Toggle)] init)
       = Some True"
  by (simp add: eval_defs)

text \<open>
  Claim C9, amended. With a clip loaded the play/pause control always flips
  \<open>isPlaying\<close>. From a state that is not Playing it starts an emitter at the stored
  offset and leaves the offset as it is; from Playing it leaves no emitter and, when
  no scrub is in progress, stores \<open>now - startTimeRef\<close> as the offset. (A negative
  stored offset, which no reachable state has, would make the start throw.)
\<close>

theorem toggle_flips:
  assumes "buffer s = Some d" "audioContext s"
  shows "(\<not> isPlaying s \<and> 0 \<le> pausedAtRef s \<longrightarrow>
          (\<exists>s'. step now Toggle s = Inr s'
             \<and> isPlaying s'
             \<and> emitterActive s'
             \<and> emitterOffset s' = Some (pausedAtRef s)
             \<and> pausedAtRef s' = pausedAtRef s))
    \<and> (\<not> isPlaying s \<and> pausedAtRef s < 0 \<longrightarrow> step now Toggle s = Inl RangeError)
    \<and> (isPlaying s \<longrightarrow>
          (\<exists>s'. step now Toggle s = Inr s'
             \<and> \<not> isPlaying s'
             \<and> \<not> emitterActive s'
             \<and> pausedAtRef s' =
                 (if isDragging s then pausedAtRef s else now - startTimeRef s)))"
proof (intro conjI impI)
  assume a: "\<not> isPlaying s \<and> 0 \<le> pausedAtRef s"
  then have n: "\<not> isPlaying s" and p: "0 \<le> pausedAtRef s" by simp_all
  from assms n p obtain s' where "step now Toggle s = Inr s'" "isPlaying s'"
    "emitterActive s'" "emitterOffset s' = Some (pausedAtRef s)" "pausedAtRef s' = pausedAtRef s"
    by (rule toggle_play [of s d now])
  then show "\<exists>s'. step now Toggle s = Inr s' \<and> isPlaying s' \<and> emitterActive s'
      \<and> emitterOffset s' = Some (pausedAtRef s) \<and> pausedAtRef s' = pausedAtRef s"
    by blast
next
  assume "\<not> isPlaying s \<and> pausedAtRef s < 0"
  with assms show "step now Toggle s = Inl RangeError"
    by (simp add: toggle_play_throws)
next
  assume p: "isPlaying s"
  from assms p obtain s' where "step now Toggle s = Inr s'" "\<not> isPlaying s'"
    "\<not> emitterActive s'"
    "pausedAtRef s' = (if isDragging s then pausedAtRef s else now - startTimeRef s)"
    by (rule toggle_pause [of s d now])
  then show "\<exists>s'. step now Toggle s = Inr s' \<and> \<not> isPlaying s' \<and> \<not> emitterActive s'
      \<and> pausedAtRef s' = (if isDragging s then pausedAtRef s else now - startTimeRef s)"
    by blast
qed

text \<open>Witness: the control is used 3 seconds into a playing clip, and again at 5.\<close>

theorem toggle_flips_witness:
  "seen buffer (run [(0, InitAudio), (0, Loaded 10)] init) = Some (Some 10)
   \<and> seen audioContext (run [(0, InitAudio), (0, Loaded 10)] init) = Some True
   \<and> seen isPlaying (run [(0, InitAudio), (0, Loaded 10)] init) = Some True
   \<and> seen isPlaying (run [(0, InitAudio), (0, Loaded 10), (3, Toggle)] init) = Some False
   \<and> seen emitterActive (run [(0, InitAudio), (0, Loaded 10), (3, Toggle)] init) = Some False
   \<and> seen pausedAtRef (run [(0, InitAudio), (0, Loaded 10), (3, Toggle)] init) = Some 3
   \<and> seen emitterOffset (run [(0, InitAudio), (0, Loaded 10), (3, Toggle), (5, Toggle)] init)
       = Some (Some 3)"
proof -
  let ?es = "[(0, InitAudio), (0, Loaded 10)]"
  let ?fs = "[(0, InitAudio), (0, Loaded 10), (3, Toggle)]"
  have "admissible ?es init" "admissible ?fs init" by (simp_all add: eval_defs)
  then obtain s t where s: "run ?es init = Inr s" and t: "run ?fs init = Inr t"
    by (metis run_reachable)
  have "seen buffer (run ?es init) = Some (Some 10)" "seen audioContext (run ?es init) = Some True"
    "seen isPlaying (run ?es init) = Some True" "seen isDragging (run ?es init) = Some False"
    "seen startTimeRef (run ?es init) = Some 0"
    by (simp_all add: eval_defs)
  with s have p: "buffer s = Some 10" "audioContext s" "isPlaying s" "\<not> isDragging s"
    "startTimeRef s = 0"
    by simp_all
  have "seen buffer (run ?fs init) = Some (Some 10)" "seen audioContext (run ?fs init) = Some True"
    "seen isPlaying (run ?fs init) = Some False" "seen pausedAtRef (run ?fs init) = Some 3"
    by (simp_all add: eval_defs)
  with t have q: "buffer t = Some 10" "audioContext t" "\<not> isPlaying t" "pausedAtRef t = 3"
    by simp_all
  have 1: "run [(0, InitAudio), (0, Loaded 10), (3, Toggle)] init = step 3 Toggle s"
    "run [(0, InitAudio), (0, Loaded 10), (3, Toggle), (5, Toggle)] init = step 5 Toggle t"
    using run_snoc_Inr [OF s, of 3 Toggle] run_snoc_Inr [OF t, of 5 Toggle] by simp_all
  from toggle_flips [OF p(1,2), of 3] p
  have 2: "seen isPlaying (step 3 Toggle s) = Some False"
    "seen emitterActive (step 3 Toggle s) = Some False"
    "seen pausedAtRef (step 3 Toggle s) = Some 3"
    by auto
  from toggle_flips [OF q(1,2), of 5] q
  have 3: "seen emitterOffset (step 5 Toggle t) = Some (Some 3)" by auto
  show ?thesis unfolding 1 s using 2 3 p by simp
qed

subsection \<open>The range of the offset\<close>




subsection \<open>Completion signals\<close>

text \<open>
  Claim C3, on the code. After a seek replaced the emitter, the completion signal of
  the replaced node must not end playback. The handler does not know which node it
  belongs to; it tests \<open>currentTime - startTimeRef >= duration - 0.1\<close> against the
  \<open>startTimeRef\<close> of the new segment. Here a clip of 10.05 seconds plays and the
  slider is dragged to 10: \<open>handleSeekEnd\<close> stops node 1, and node 3 plays the last
  0.05 seconds. The \<open>ended\<close> event of node 1 finds \<open>2 - (-8) \<ge> 9.95\<close> and switches
  playback off, although node 3 has not run out.
\<close>

theorem stale_completion_ends_playback:
  "admissible [(0, InitAudio), (0, Loaded 10.05), (1, SeekStart), (1, Ended 0),
       (2, SeekChange 10), (2, SeekEnd), (2, Ended 1)] init
   \<and> seen isPlaying (run [(0, InitAudio), (0, Loaded 10.05), (1, SeekStart), (1, Ended 0),
       (2, SeekChange 10), (2, SeekEnd)] init) = Some True
   \<and> seen sourceRef (run [(0, InitAudio), (0, Loaded 10.05), (1, SeekStart), (1, Ended 0),
       (2, SeekChange 10), (2, SeekEnd)] init) = Some (Some 3)
   \<and> seen (nodeStatus 3) (run [(0, InitAudio), (0, Loaded 10.05), (1, SeekStart), (1, Ended 0),
       (2, SeekChange 10), (2, SeekEnd)] init) = Some (Some Running)
   \<and> seen (nodeStatus 1) (run [(0, InitAudio), (0, Loaded 10.05), (1, SeekStart), (1, Ended 0),
       (2, SeekChange 10), (2, SeekEnd)] init) = Some (Some Stopped)
   \<and> seen (allowed (Ended 3) 2) (run [(0, InitAudio), (0, Loaded 10.05), (1, SeekStart),
       (1, Ended 0), (2, SeekChange 10), (2, SeekEnd)] init) = Some False
   \<and> seen isPlaying (run [(0, InitAudio), (0, Loaded 10.05), (1, SeekStart), (1, Ended 0),
       (2, SeekChange 10), (2, SeekEnd), (2, Ended 1)] init) = Some False
   \<and> seen (nodeStatus 3) (run [(0, InitAudio), (0, Loaded 10.05), (1, SeekStart), (1, Ended 0),
       (2, SeekChange 10), (2, SeekEnd), (2, Ended 1)] init) = Some (Some Stopped)
   \<and> seen emitterActive (run [(0, InitAudio), (0, Loaded 10.05), (1, SeekStart), (1, Ended 0),
       (2, SeekChange 10), (2, SeekEnd), (2, Ended 1)] init) = Some False"
  by (simp add: eval_defs)

text \<open>
  Claim C5, on the code. On natural completion the engine is to end with offset 0, no
  emitter and no tracker. The handler sets \<open>pausedAtRef\<close> to 0, but its
  \<open>onTogglePlay()\<close> makes the playback effect run again, and the effect's pause branch
  then stores \<open>context.currentTime - startTimeRef.current\<close>. Here the scenario of the
  specification: a clip of 10 seconds is played from 7.5 and completes 2.6 seconds
  later; the offset ends at 10.1.
\<close>

theorem completion_leaves_offset_at_end:
  "admissible [(0, InitAudio), (0, Loaded 10), (7.5, Toggle), (7.5, Ended 0), (20, Toggle),
       (22.6, Ended 1)] init
   \<and> seen isPlaying (run [(0, InitAudio), (0, Loaded 10), (7.5, Toggle), (7.5, Ended 0),
       (20, Toggle)] init) = Some True
   \<and> seen emitterOffset (run [(0, InitAudio), (0, Loaded 10), (7.5, Toggle), (7.5, Ended 0),
       (20, Toggle)] init) = Some (Some 7.5)
   \<and> seen isPlaying (run [(0, InitAudio), (0, Loaded 10), (7.5, Toggle), (7.5, Ended 0),
       (20, Toggle), (22.6, Ended 1)] init) = Some False
   \<and> seen emitterActive (run [(0, InitAudio), (0, Loaded 10), (7.5, Toggle), (7.5, Ended 0),
       (20, Toggle), (22.6, Ended 1)] init) = Some False
   \<and> seen animationRef (run [(0, InitAudio), (0, Loaded 10), (7.5, Toggle), (7.5, Ended 0),
       (20, Toggle), (22.6, Ended 1)] init) = Some None
   \<and> seen currentTime (run [(0, InitAudio), (0, Loaded 10), (7.5, Toggle), (7.5, Ended 0),
       (20, Toggle), (22.6, Ended 1)] init) = Some 0
   \<and> seen pausedAtRef (run [(0, InitAudio), (0, Loaded 10), (7.5, Toggle), (7.5, Ended 0),
       (20, Toggle), (22.6, Ended 1)] init) = Some 10.1"
  by (simp add: eval_defs)

subsection \<open>One emitter at a time\<close>





subsection \<open>Seeking\<close>

lemma step_SeekChange: "step now (SeekChange t) s = Inr (s\<lparr>clock := now, currentTime := t\<rparr>)"
  by (simp add: step_def commit_child handleSeekChange_def)

text \<open>
  A seek while the clip plays stores the slider position as the offset and replaces
  the emitter by one started there. A negative position, which the slider cannot
  deliver, would end in the \<open>RangeError\<close> of \<open>source.start\<close>.
\<close>

lemma seek_while_playing:
  assumes "reachable s" "isPlaying s" "buffer s = Some d"
  shows "(0 \<le> t \<longrightarrow>
           yields (run [(t1, SeekChange t), (t2, SeekEnd)] s)
             (\<lambda>s'. pausedAtRef s' = t \<and> emitterActive s' \<and> emitterOffset s' = Some t))
    \<and> (t < 0 \<longrightarrow> run [(t1, SeekChange t), (t2, SeekEnd)] s = Inl RangeError)"
proof -
  from assms(1) have i: "player_inv s" by (rule reachable_inv)
  with assms(3) have ctx: "audioContext s" by (simp add: player_inv_def sane_def)
  from i assms(2,3) have "emitterActive s" by (simp add: player_inv_def)
  then obtain h where h: "sourceRef s = Some h" by (auto simp: emitterActive_iff)
  let ?u = "(s\<lparr>clock := t1, currentTime := t\<rparr>)\<lparr>clock := t2\<rparr>"
  let ?a = "stopSource h (?u\<lparr>pausedAtRef := t\<rparr>)"
  have r: "run [(t1, SeekChange t), (t2, SeekEnd)] s =
      (case handleSeekEnd t2 ?u of Inl e \<Rightarrow> Inl e | Inr x \<Rightarrow> commit False t2 ?u x)"
    by (simp only: run.simps step_SeekChange sum.case) (simp add: step_def split: sum.splits)
  have sk: "seekRestart t2 d (?u\<lparr>pausedAtRef := t\<rparr>) = startSegment t2 d ?a"
    using assms(2) h by (simp add: seekRestart_def)
  have hs: "handleSeekEnd t2 ?u =
      (case startSegment t2 d ?a of Inl e \<Rightarrow> Inl e | Inr b \<Rightarrow> Inr (b\<lparr>isDragging := False\<rparr>))"
    using assms(3) ctx sk by (simp add: handleSeekEnd_def)
  show ?thesis
  proof (intro conjI impI)
    assume "t < 0"
    then have "startSegment t2 d ?a = Inl RangeError" by (intro startSegment_Inl) simp
    then show "run [(t1, SeekChange t), (t2, SeekEnd)] s = Inl RangeError"
      unfolding r hs by simp
  next
    assume t: "0 \<le> t"
    then have "0 \<le> pausedAtRef ?a" by simp
    then obtain b where b: "startSegment t2 d ?a = Inr b"
      using startSegment_ex by blast
    note fb = startSegment_fields [OF b]
    let ?x = "b\<lparr>isDragging := False\<rparr>"
    have x: "pausedAtRef ?x = t" "emitterActive ?x" "emitterOffset ?x = Some t"
      using emitter_startSegment [OF b] emitter_cong [of ?x b] fb by simp_all
    have c: "commit False t2 ?u ?x =
        (if isDragging s then playbackEffect t2 (cleanup ?x) else Inr ?x)"
      using fb by (simp add: commit_child)
    show "yields (run [(t1, SeekChange t), (t2, SeekEnd)] s)
        (\<lambda>s'. pausedAtRef s' = t \<and> emitterActive s' \<and> emitterOffset s' = Some t)"
    proof (cases "isDragging s")
      case False
      with x c show ?thesis unfolding r hs b by simp
    next
      case True
      from t fb have "0 \<le> pausedAtRef (cleanup ?x)" by simp
      then obtain e where e: "startSegment t2 d (cleanup ?x) = Inr e"
        using startSegment_ex by blast
      note fe = startSegment_fields [OF e]
      let ?s' = "e\<lparr>animationRef := Some (False, d), hasCleanup := True\<rparr>"
      have pe: "playbackEffect t2 (cleanup ?x) = Inr ?s'"
        using assms(2,3) ctx fb e by (simp add: playbackEffect_def)
      have "pausedAtRef ?s' = t" "emitterActive ?s'" "emitterOffset ?s' = Some t"
        using emitter_startSegment [OF e] emitter_cong [of ?s' e] fe fb by simp_all
      with True c pe show ?thesis unfolding r hs b by simp
    qed
  qed
qed

text \<open>
  A seek by drag while the clip is paused: \<open>handleSeekEnd\<close> stores the slider position,
  and the playback effect, which runs again because \<open>isDragging\<close> changed, overwrites it
  with the clock reading minus \<open>startTimeRef\<close>, whatever the slider position was.
\<close>

lemma seek_paused_drag:
  assumes "reachable s" "\<not> isPlaying s" "buffer s = Some d" "isDragging s"
  shows "handleSeekEnd now (s\<lparr>clock := now\<rparr>)
      = Inr (s\<lparr>clock := now, pausedAtRef := currentTime s, isDragging := False\<rparr>)"
    and "\<exists>s'. step now SeekEnd s = Inr s' \<and> pausedAtRef s' = now - startTimeRef s
          \<and> currentTime s' = currentTime s \<and> \<not> isDragging s'"
proof -
  from assms(1) have i: "player_inv s" by (rule reachable_inv)
  with assms(3) have ctx: "audioContext s" by (simp add: player_inv_def sane_def)
  let ?q = "s\<lparr>clock := now\<rparr>"
  let ?x = "s\<lparr>clock := now, pausedAtRef := currentTime s, isDragging := False\<rparr>"
  show H: "handleSeekEnd now ?q = Inr ?x"
    using assms(2,3) ctx by (simp add: handleSeekEnd_def seekRestart_idle)
  have st: "step now SeekEnd s = playbackEffect now (cleanup ?x)"
    using assms(4) by (simp add: step_def H commit_child)
  let ?c = "cleanup ?x"
  let ?u = "case sourceRef ?c of None \<Rightarrow> ?c | Some h \<Rightarrow> (stopSource h ?c)\<lparr>sourceRef := None\<rparr>"
  let ?r = "?u\<lparr>pausedAtRef := now - startTimeRef ?u, animationRef := None, hasCleanup := True\<rparr>"
  have idr: "\<not> isDragging ?u" "startTimeRef ?u = startTimeRef s" "currentTime ?u = currentTime s"
    by (cases "sourceRef ?c"; simp)+
  have pe: "playbackEffect now ?c = Inr ?r"
    using assms(2,3) ctx idr by (simp add: playbackEffect_def Let_def)
  have "pausedAtRef ?r = now - startTimeRef s" "currentTime ?r = currentTime s" "\<not> isDragging ?r"
    using idr by simp_all
  with st pe show "\<exists>s'. step now SeekEnd s = Inr s' \<and> pausedAtRef s' = now - startTimeRef s
      \<and> currentTime s' = currentTime s \<and> \<not> isDragging s'"
    by simp
qed

text \<open>
  Claim C7, on the code. A seek is to set the offset to the target, clamped to the
  clip. Here a clip of 10 seconds is paused at 3; the slider is pressed at clock 5,
  moved to 7.5 and released at clock 6. \<open>handleSeekEnd\<close> stores 7.5 ("Update the
  offset to the new slider position"), then the effect that follows
  \<open>setIsDragging(false)\<close> overwrites it with \<open>6 - 0\<close>. The slider shows 7.5, and the
  next play starts at 6.
\<close>

theorem seek_while_paused_overwritten:
  "admissible [(0, InitAudio), (0, Loaded 10), (3, Toggle), (3, Ended 0), (5, SeekStart),
       (6, SeekChange 7.5), (6, SeekEnd), (8, Toggle)] init
   \<and> seen pausedAtRef (run [(0, InitAudio), (0, Loaded 10), (3, Toggle), (3, Ended 0),
       (5, SeekStart), (6, SeekChange 7.5)] init) = Some 3
   \<and> seen currentTime (run [(0, InitAudio), (0, Loaded 10), (3, Toggle), (3, Ended 0),
       (5, SeekStart), (6, SeekChange 7.5), (6, SeekEnd)] init) = Some 7.5
   \<and> seen pausedAtRef (run [(0, InitAudio), (0, Loaded 10), (3, Toggle), (3, Ended 0),
       (5, SeekStart), (6, SeekChange 7.5), (6, SeekEnd)] init) = Some 6
   \<and> seen emitterActive (run [(0, InitAudio), (0, Loaded 10), (3, Toggle), (3, Ended 0),
       (5, SeekStart), (6, SeekChange 7.5), (6, SeekEnd)] init) = Some False
   \<and> seen emitterOffset (run [(0, InitAudio), (0, Loaded 10), (3, Toggle), (3, Ended 0),
       (5, SeekStart), (6, SeekChange 7.5), (6, SeekEnd), (8, Toggle)] init) = Some (Some 6)"
  by (simp add: eval_defs)

end
